theory Spec2Isabelle
  imports Complex_Main "HOL-Library.AList"
begin

section \<open>Exceptions and outcomes\<close>

text \<open>
  The exception classes the Bookvault sources name in their \<^verbatim>\<open>except\<close> clauses
  (\<^verbatim>\<open>apis/openai_engine.py\<close>, \<^verbatim>\<open>apis/google_books.py\<close>, \<^verbatim>\<open>cache.py\<close>) and those the
  interpreter raises on its own. \<open>HTTPError\<close> and \<open>RequestException\<close> carry the status code
  of \<^verbatim>\<open>e.response\<close>, \<open>None\<close> when no response is attached. \<open>OtherException\<close> stands for
  any further subclass of \<^verbatim>\<open>Exception\<close>. Every constructor is caught by
  \<^verbatim>\<open>except Exception\<close>.

  The \<^verbatim>\<open>openai\<close> package is not part of the repository. In its versions from 1.0 on (the ones
  that export \<^verbatim>\<open>OpenAI\<close>, \<^verbatim>\<open>APIError\<close>, \<^verbatim>\<open>RateLimitError\<close> and \<^verbatim>\<open>APIConnectionError\<close>, as the
  import in \<^verbatim>\<open>openai_engine.py\<close> requires) every error of the client derives from \<^verbatim>\<open>APIError\<close>:
  \<^verbatim>\<open>RateLimitError\<close>, \<^verbatim>\<open>AuthenticationError\<close> (status 401), \<^verbatim>\<open>BadRequestError\<close> (status 400) and
  \<^verbatim>\<open>InternalServerError\<close> (status 500 and above) through \<^verbatim>\<open>APIStatusError\<close>, and \<^verbatim>\<open>APITimeoutError\<close>
  through \<^verbatim>\<open>APIConnectionError\<close>. \<open>APIError\<close> below stands for an instance of the base class or of
  a subclass not listed.
\<close>

datatype py_exc =
    APIError
  | RateLimitError
  | APIConnectionError
  | APITimeoutError
  | AuthenticationError
  | BadRequestError
  | InternalServerError
  | HTTPError "nat option"
  | Timeout
  | RequestException "nat option"
  | JSONDecodeError
  | SqliteError
  | TypeError
  | ValueError
  | OtherException

datatype 'a outcome = Return 'a | Raise py_exc

section \<open>The retry decorator of \<^verbatim>\<open>apis/openai_engine.py\<close>\<close>

text \<open>
  A run of a wrapped call is observed through its result, the number of times the wrapped
  function was invoked and the arguments of the \<^verbatim>\<open>time.sleep\<close> calls that returned, in
  order. Delays are Python floats in the source; here they are exact rationals.
\<close>

record 'a run =
  result :: "'a outcome"
  calls :: nat
  sleeps :: "rat list"

text \<open>
  \<^verbatim>\<open>except (APIError, RateLimitError, APIConnectionError) as e\<close>: the clause catches the
  instances of the three classes and of their subclasses.
\<close>

fun retryable :: "py_exc \<Rightarrow> bool" where
  "retryable APIError = True"
| "retryable RateLimitError = True"
| "retryable APIConnectionError = True"
| "retryable APITimeoutError = True"
| "retryable AuthenticationError = True"
| "retryable BadRequestError = True"
| "retryable InternalServerError = True"
| "retryable _ = False"

text \<open>
  The body of \<^verbatim>\<open>for attempt in range(max_retries + 1)\<close> in \<^verbatim>\<open>wrapper\<close>, by recursion on the
  attempts still to come. \<open>func n\<close> is what the wrapped function does when it is invoked
  after \<open>n\<close> earlier invocations. \<^verbatim>\<open>time.sleep\<close> raises \<^verbatim>\<open>ValueError\<close> on a negative
  argument; raised inside the handler, it leaves the wrapper. After the loop,
  \<^verbatim>\<open>raise last_exception\<close> raises \<^verbatim>\<open>TypeError\<close> when \<^verbatim>\<open>last_exception\<close> is still \<^verbatim>\<open>None\<close>.
\<close>

fun wrapper_loop ::
  "int \<Rightarrow> rat \<Rightarrow> (nat \<Rightarrow> 'a outcome) \<Rightarrow> nat list \<Rightarrow> rat \<Rightarrow> py_exc option \<Rightarrow> nat \<Rightarrow> rat list
     \<Rightarrow> 'a run" where
  "wrapper_loop max_retries backoff func [] current_delay last_exception n slept =
     \<lparr>result = (case last_exception of None \<Rightarrow> Raise TypeError | Some e \<Rightarrow> Raise e),
      calls = n, sleeps = slept\<rparr>"
| "wrapper_loop max_retries backoff func (attempt # rest) current_delay last_exception n slept =
     (case func n of
        Return v \<Rightarrow> \<lparr>result = Return v, calls = Suc n, sleeps = slept\<rparr>
      | Raise e \<Rightarrow>
          if retryable e then
            if int attempt < max_retries then
              if current_delay < 0 then
                \<lparr>result = Raise ValueError, calls = Suc n, sleeps = slept\<rparr>
              else
                wrapper_loop max_retries backoff func rest (current_delay * backoff) (Some e)
                  (Suc n) (slept @ [current_delay])
            else
              wrapper_loop max_retries backoff func rest current_delay (Some e) (Suc n) slept
          else \<lparr>result = Raise e, calls = Suc n, sleeps = slept\<rparr>)"

text \<open>\<^verbatim>\<open>retry_on_failure(max_retries, delay, backoff)(func)\<close>, called once.\<close>

definition wrapper :: "int \<Rightarrow> rat \<Rightarrow> rat \<Rightarrow> (nat \<Rightarrow> 'a outcome) \<Rightarrow> 'a run" where
  "wrapper max_retries delay backoff func =
     wrapper_loop max_retries backoff func [0..<nat (max_retries + 1)] delay None 0 []"

section \<open>Python values and the \<^verbatim>\<open>json\<close> module\<close>

text \<open>
  The values the cache is handed: \<^verbatim>\<open>None\<close>, booleans, integers, strings, lists and
  dictionaries with string keys (an association list in insertion order), and \<open>PObject\<close>
  for any object \<^verbatim>\<open>json.dumps\<close> rejects (a \<^verbatim>\<open>Book\<close> instance, a set). Strings are lists of
  code points below 256. Floats are outside the model.
\<close>

datatype pyval =
    PNone
  | PBool bool
  | PInt int
  | PStr string
  | PList "pyval list"
  | PDict "(string \<times> pyval) list"
  | PObject

text \<open>Truth value testing, as in \<^verbatim>\<open>if cached := self.cache.get(cache_key)\<close>.\<close>

fun truthy :: "pyval \<Rightarrow> bool" where
  "truthy PNone = False"
| "truthy (PBool b) = b"
| "truthy (PInt i) = (i \<noteq> 0)"
| "truthy (PStr s) = (s \<noteq> [])"
| "truthy (PList xs) = (xs \<noteq> [])"
| "truthy (PDict kvs) = (kvs \<noteq> [])"
| "truthy PObject = True"

definition dquote :: char where "dquote = CHR 0x22"
definition backslash :: char where "backslash = CHR 0x5C"

text \<open>\<^verbatim>\<open>str(n)\<close> for an integer, used by f-strings and by \<^verbatim>\<open>json.dumps\<close>.\<close>

definition digit_char :: "nat \<Rightarrow> char" where
  "digit_char d = char_of (48 + d)"

fun digits_of :: "nat \<Rightarrow> string" where
  "digits_of n = (if n < 10 then [digit_char n] else digits_of (n div 10) @ [digit_char (n mod 10)])"

definition str_int :: "int \<Rightarrow> string" where
  "str_int i = (if i < 0 then CHR ''-'' # digits_of (nat (- i)) else digits_of (nat i))"

subsection \<open>\<^verbatim>\<open>json.dumps\<close> with its default arguments\<close>

definition hex_char :: "nat \<Rightarrow> char" where
  "hex_char d = (if d < 10 then char_of (48 + d) else char_of (87 + d))"

text \<open>\<^verbatim>\<open>ensure_ascii=True\<close>: everything outside \<^verbatim>\<open>' '..'~'\<close> is escaped.\<close>

definition escape_char :: "char \<Rightarrow> string" where
  "escape_char c =
     (if c = dquote then [backslash, dquote]
      else if c = backslash then [backslash, backslash]
      else if c = CHR 0x0A then [backslash, CHR ''n'']
      else if c = CHR 0x0D then [backslash, CHR ''r'']
      else if c = CHR 0x09 then [backslash, CHR ''t'']
      else if c = CHR 0x08 then [backslash, CHR ''b'']
      else if c = CHR 0x0C then [backslash, CHR ''f'']
      else if (of_char c :: nat) < 32 \<or> 126 < (of_char c :: nat) then
        [backslash, CHR ''u'', CHR ''0'', CHR ''0'',
         hex_char ((of_char c :: nat) div 16), hex_char ((of_char c :: nat) mod 16)]
      else [c])"

definition encode_basestring :: "string \<Rightarrow> string" where
  "encode_basestring s = dquote # concat (map escape_char s) @ [dquote]"

fun join :: "string \<Rightarrow> string list \<Rightarrow> string" where
  "join sep [] = []"
| "join sep [x] = x"
| "join sep (x # y # ys) = x @ sep @ join sep (y # ys)"

text \<open>What \<^verbatim>\<open>json.dumps\<close> accepts.\<close>

fun encodable :: "pyval \<Rightarrow> bool" where
  "encodable (PList xs) = list_all encodable xs"
| "encodable (PDict kvs) = list_all encodable (map snd kvs)"
| "encodable PObject = False"
| "encodable _ = True"

text \<open>
  The values that are JSON data: no foreign object inside, and the keys of every dictionary
  pairwise different, as in any Python \<^verbatim>\<open>dict\<close>.
\<close>

fun json_serializable :: "pyval \<Rightarrow> bool" where
  "json_serializable (PList xs) = list_all json_serializable xs"
| "json_serializable (PDict kvs) = (distinct (map fst kvs) \<and> list_all json_serializable (map snd kvs))"
| "json_serializable PObject = False"
| "json_serializable _ = True"

fun dumps_text :: "pyval \<Rightarrow> string" where
  "dumps_text PNone = ''null''"
| "dumps_text (PBool b) = (if b then ''true'' else ''false'')"
| "dumps_text (PInt i) = str_int i"
| "dumps_text (PStr s) = encode_basestring s"
| "dumps_text (PList xs) = ''['' @ join '', '' (map dumps_text xs) @ '']''"
| "dumps_text (PDict kvs) =
     ''{'' @ join '', '' (map (\<lambda>kv. encode_basestring (fst kv) @ '': '' @ dumps_text (snd kv)) kvs) @ ''}''"
| "dumps_text PObject = []"

definition json_dumps :: "pyval \<Rightarrow> string outcome" where
  "json_dumps v = (if encodable v then Return (dumps_text v) else Raise TypeError)"

subsection \<open>\<^verbatim>\<open>json.loads\<close>\<close>

definition is_ws :: "char \<Rightarrow> bool" where
  "is_ws c = (c = CHR '' '' \<or> c = CHR 0x09 \<or> c = CHR 0x0A \<or> c = CHR 0x0D)"

definition skip_ws :: "string \<Rightarrow> string" where
  "skip_ws s = dropWhile is_ws s"

definition is_digit :: "char \<Rightarrow> bool" where
  "is_digit c = (48 \<le> (of_char c :: nat) \<and> (of_char c :: nat) \<le> 57)"

definition digit_val :: "char \<Rightarrow> nat" where
  "digit_val c = of_char c - 48"

definition nat_of_digits :: "string \<Rightarrow> nat" where
  "nat_of_digits ds = foldl (\<lambda>a c. 10 * a + digit_val c) 0 ds"

definition hex_val :: "char \<Rightarrow> nat option" where
  "hex_val c =
     (let n = (of_char c :: nat) in
      if 48 \<le> n \<and> n \<le> 57 then Some (n - 48)
      else if 97 \<le> n \<and> n \<le> 102 then Some (n - 87)
      else if 65 \<le> n \<and> n \<le> 70 then Some (n - 55)
      else None)"

definition hex4 :: "char \<Rightarrow> char \<Rightarrow> char \<Rightarrow> char \<Rightarrow> nat option" where
  "hex4 a b c d =
     (case (hex_val a, hex_val b, hex_val c, hex_val d) of
        (Some w, Some x, Some y, Some z) \<Rightarrow> Some (((w * 16 + x) * 16 + y) * 16 + z)
      | _ \<Rightarrow> None)"

definition unescape :: "char \<Rightarrow> char option" where
  "unescape e =
     (if e = dquote then Some dquote
      else if e = backslash then Some backslash
      else if e = CHR ''/'' then Some CHR ''/''
      else if e = CHR ''b'' then Some (CHR 0x08)
      else if e = CHR ''f'' then Some (CHR 0x0C)
      else if e = CHR ''n'' then Some (CHR 0x0A)
      else if e = CHR ''r'' then Some (CHR 0x0D)
      else if e = CHR ''t'' then Some (CHR 0x09)
      else None)"

definition cons_fst :: "'a \<Rightarrow> ('a list \<times> 'b) option \<Rightarrow> ('a list \<times> 'b) option" where
  "cons_fst x r = (case r of None \<Rightarrow> None | Some (xs, rest) \<Rightarrow> Some (x # xs, rest))"

text \<open>
  The strict string scanner, started after the opening quote: the decoded string and the
  text after the closing quote. A code point from 256 on is outside the model and is
  reported as undecodable.
\<close>

fun scanstring :: "string \<Rightarrow> (string \<times> string) option" where
  "scanstring [] = None"
| "scanstring (c # cs) =
     (if c = dquote then Some ([], cs)
      else if c = backslash then
        (case cs of
           [] \<Rightarrow> None
         | e # cs1 \<Rightarrow>
             if e = CHR ''u'' then
               (case cs1 of
                  h1 # h2 # h3 # h4 # cs2 \<Rightarrow>
                    (case hex4 h1 h2 h3 h4 of
                       None \<Rightarrow> None
                     | Some n \<Rightarrow> if n < 256 then cons_fst (char_of n) (scanstring cs2) else None)
                | _ \<Rightarrow> None)
             else
               (case unescape e of
                  None \<Rightarrow> None
                | Some ch \<Rightarrow> cons_fst ch (scanstring cs1)))
      else if (of_char c :: nat) < 32 then None
      else cons_fst c (scanstring cs))"

text \<open>
  A number that continues with a fraction or an exponent is a float.
\<close>

fun float_suffix :: "string \<Rightarrow> bool" where
  "float_suffix (c # d # e # rest) =
     ((c = CHR ''.'' \<and> is_digit d)
      \<or> ((c = CHR ''e'' \<or> c = CHR ''E'') \<and> (is_digit d \<or> ((d = CHR ''+'' \<or> d = CHR ''-'') \<and> is_digit e))))"
| "float_suffix [c, d] = ((c = CHR ''.'' \<or> c = CHR ''e'' \<or> c = CHR ''E'') \<and> is_digit d)"
| "float_suffix _ = False"

text \<open>The integer part \<^verbatim>\<open>(0|[1-9][0-9]*)\<close> of the number pattern.\<close>

definition scan_digits :: "string \<Rightarrow> (string \<times> string) option" where
  "scan_digits s =
     (case s of
        [] \<Rightarrow> None
      | c # r \<Rightarrow>
          if c = CHR ''0'' then Some ([c], r)
          else if is_digit c then Some (c # takeWhile is_digit r, dropWhile is_digit r)
          else None)"

definition scan_number :: "string \<Rightarrow> (pyval \<times> string) option" where
  "scan_number s =
     (case s of
        [] \<Rightarrow> None
      | c # r \<Rightarrow>
          if c = CHR ''-'' then
            (case scan_digits r of
               None \<Rightarrow> None
             | Some (ds, rest) \<Rightarrow>
                 if float_suffix rest then None else Some (PInt (- int (nat_of_digits ds)), rest))
          else
            (case scan_digits s of
               None \<Rightarrow> None
             | Some (ds, rest) \<Rightarrow>
                 if float_suffix rest then None else Some (PInt (int (nat_of_digits ds)), rest)))"

definition strip_prefix :: "string \<Rightarrow> string \<Rightarrow> string option" where
  "strip_prefix p s = (if take (length p) s = p then Some (drop (length p) s) else None)"

text \<open>
  The decoder (\<^verbatim>\<open>scan_once\<close>, \<^verbatim>\<open>JSONArray\<close>, \<^verbatim>\<open>JSONObject\<close>), by recursion on a bound on the
  nesting and the number of items still to read; \<open>None\<close> is \<^verbatim>\<open>JSONDecodeError\<close>. A later
  pair of an object with a key seen before replaces the earlier value, as \<^verbatim>\<open>dict\<close> does.
\<close>

fun scan_once :: "nat \<Rightarrow> string \<Rightarrow> (pyval \<times> string) option"
  and parse_array :: "nat \<Rightarrow> string \<Rightarrow> (pyval list \<times> string) option"
  and parse_object :: "nat \<Rightarrow> string \<Rightarrow> ((string \<times> pyval) list \<times> string) option" where
  "scan_once 0 s = None"
| "scan_once (Suc n) [] = None"
| "scan_once (Suc n) (c # r) =
     (if c = dquote then
        (case scanstring r of None \<Rightarrow> None | Some (str, rest) \<Rightarrow> Some (PStr str, rest))
      else if c = CHR ''{'' then
        (case skip_ws r of
           [] \<Rightarrow> None
         | d # r1 \<Rightarrow>
             if d = CHR ''}'' then Some (PDict [], r1)
             else
               (case parse_object n (d # r1) of
                  None \<Rightarrow> None
                | Some (kvs, rest) \<Rightarrow> Some (PDict (foldl (\<lambda>al kv. AList.update (fst kv) (snd kv) al) [] kvs), rest)))
      else if c = CHR ''['' then
        (case skip_ws r of
           [] \<Rightarrow> None
         | d # r1 \<Rightarrow>
             if d = CHR '']'' then Some (PList [], r1)
             else
               (case parse_array n (d # r1) of
                  None \<Rightarrow> None
                | Some (xs, rest) \<Rightarrow> Some (PList xs, rest)))
      else if c = CHR ''n'' then
        (case strip_prefix ''ull'' r of None \<Rightarrow> None | Some rest \<Rightarrow> Some (PNone, rest))
      else if c = CHR ''t'' then
        (case strip_prefix ''rue'' r of None \<Rightarrow> None | Some rest \<Rightarrow> Some (PBool True, rest))
      else if c = CHR ''f'' then
        (case strip_prefix ''alse'' r of None \<Rightarrow> None | Some rest \<Rightarrow> Some (PBool False, rest))
      else scan_number (c # r))"
| "parse_array 0 s = None"
| "parse_array (Suc n) s =
     (case scan_once n s of
        None \<Rightarrow> None
      | Some (x, rest) \<Rightarrow>
          (case skip_ws rest of
             [] \<Rightarrow> None
           | d # r1 \<Rightarrow>
               if d = CHR '']'' then Some ([x], r1)
               else if d = CHR '','' then cons_fst x (parse_array n (skip_ws r1))
               else None))"
| "parse_object 0 s = None"
| "parse_object (Suc n) s =
     (case s of
        [] \<Rightarrow> None
      | q # r \<Rightarrow>
          if q \<noteq> dquote then None
          else
            (case scanstring r of
               None \<Rightarrow> None
             | Some (k, rest) \<Rightarrow>
                 (case skip_ws rest of
                    [] \<Rightarrow> None
                  | col # r1 \<Rightarrow>
                      if col \<noteq> CHR '':'' then None
                      else
                        (case scan_once n (skip_ws r1) of
                           None \<Rightarrow> None
                         | Some (x, rest1) \<Rightarrow>
                             (case skip_ws rest1 of
                                [] \<Rightarrow> None
                              | d # r2 \<Rightarrow>
                                  if d = CHR ''}'' then Some ([(k, x)], r2)
                                  else if d = CHR '','' then cons_fst (k, x) (parse_object n (skip_ws r2))
                                  else None)))))"

text \<open>
  \<^verbatim>\<open>json.loads(s)\<close>: leading white space, one value, trailing white space, end of text.
\<close>

definition json_loads :: "string \<Rightarrow> pyval option" where
  "json_loads s =
     (case scan_once (Suc (length s)) (skip_ws s) of
        None \<Rightarrow> None
      | Some (v, rest) \<Rightarrow> if skip_ws rest = [] then Some v else None)"

text \<open>
  The text after an encoded value inside a document that \<^verbatim>\<open>json.dumps\<close> wrote: the end, a
  comma or a closing bracket. Used to state the facts about the decoder.
\<close>

definition ends_value :: "string \<Rightarrow> bool" where
  "ends_value rest = (rest = [] \<or> hd rest = CHR '','' \<or> hd rest = CHR '']'' \<or> hd rest = CHR ''}'')"

text \<open>An encoded value begins with a character that is neither blank nor a closing bracket.\<close>

definition starts_value :: "char \<Rightarrow> bool" where
  "starts_value c = (\<not> is_ws c \<and> c \<noteq> CHR '']'' \<and> c \<noteq> CHR ''}'')"

text \<open>One \<^verbatim>\<open>"key": value\<close> member of an encoded dictionary.\<close>

abbreviation member_text :: "string \<times> pyval \<Rightarrow> string" where
  "member_text kv \<equiv> encode_basestring (fst kv) @ '': '' @ dumps_text (snd kv)"

section \<open>The SQLite cache of \<^verbatim>\<open>cache.py\<close>\<close>

text \<open>
  A row of the table \<^verbatim>\<open>cache (key TEXT PRIMARY KEY, value TEXT, timestamp REAL)\<close>; the
  column \<^verbatim>\<open>value\<close> may hold \<^verbatim>\<open>NULL\<close>. Timestamps are seconds, as exact rationals.
\<close>

record row =
  row_key :: string
  row_value :: "string option"
  row_timestamp :: rat

text \<open>
  A \<^verbatim>\<open>SQLiteCache\<close> object: the table as the connection \<^verbatim>\<open>self.conn\<close> sees it (with the
  changes of its open transaction), whether \<^verbatim>\<open>self.conn.execute\<close> succeeds (when it does
  not, every statement raises \<^verbatim>\<open>sqlite3.Error\<close> and changes nothing), whether
  \<^verbatim>\<open>self.conn.commit\<close> succeeds (when it does not, as with "database is locked", it raises
  \<^verbatim>\<open>sqlite3.Error\<close> and the changes of the statements before it stay visible on the
  connection), and \<^verbatim>\<open>self.max_age_hours\<close>.
\<close>

record sqlite_cache =
  statements_ok :: bool
  commit_ok :: bool
  cache_rows :: "row list"
  max_age_hours :: int

text \<open>The storage layer answers: statements and commits both succeed.\<close>

definition storage_ok :: "sqlite_cache \<Rightarrow> bool" where
  "storage_ok c = (statements_ok c \<and> commit_ok c)"

subsection \<open>The SQL statements\<close>

text \<open>\<^verbatim>\<open>SELECT value FROM cache WHERE key=? LIMIT 1\<close>, then \<^verbatim>\<open>fetchone()\<close>\<close>

definition select_value :: "sqlite_cache \<Rightarrow> string \<Rightarrow> string option option outcome" where
  "select_value c k =
     (if statements_ok c
      then Return (map_option row_value (find (\<lambda>r. row_key r = k) (cache_rows c)))
      else Raise SqliteError)"

text \<open>
  \<^verbatim>\<open>INSERT OR REPLACE INTO cache (key, value, timestamp) VALUES (?, ?, ?)\<close>: the rows
  that conflict on the primary key are deleted, then the new row is inserted.
\<close>

definition insert_or_replace :: "sqlite_cache \<Rightarrow> string \<Rightarrow> string \<Rightarrow> rat \<Rightarrow> sqlite_cache outcome" where
  "insert_or_replace c k text ts =
     (if statements_ok c
      then Return (c\<lparr>cache_rows :=
             filter (\<lambda>r. row_key r \<noteq> k) (cache_rows c)
               @ [\<lparr>row_key = k, row_value = Some text, row_timestamp = ts\<rparr>]\<rparr>)
      else Raise SqliteError)"

text \<open>\<^verbatim>\<open>self.conn.commit()\<close>\<close>

definition commit :: "sqlite_cache \<Rightarrow> unit outcome" where
  "commit c = (if commit_ok c then Return () else Raise SqliteError)"

text \<open>\<^verbatim>\<open>DELETE FROM cache\<close>\<close>

definition delete_all :: "sqlite_cache \<Rightarrow> sqlite_cache outcome" where
  "delete_all c = (if statements_ok c then Return (c\<lparr>cache_rows := []\<rparr>) else Raise SqliteError)"

text \<open>\<^verbatim>\<open>SELECT COUNT(*) FROM cache WHERE timestamp < ?\<close>\<close>

definition count_older :: "sqlite_cache \<Rightarrow> rat \<Rightarrow> nat outcome" where
  "count_older c cutoff_time =
     (if statements_ok c
      then Return (length (filter (\<lambda>r. row_timestamp r < cutoff_time) (cache_rows c)))
      else Raise SqliteError)"

text \<open>\<^verbatim>\<open>DELETE FROM cache WHERE timestamp < ?\<close>\<close>

definition delete_older :: "sqlite_cache \<Rightarrow> rat \<Rightarrow> sqlite_cache outcome" where
  "delete_older c cutoff_time =
     (if statements_ok c
      then Return (c\<lparr>cache_rows := filter (\<lambda>r. \<not> row_timestamp r < cutoff_time) (cache_rows c)\<rparr>)
      else Raise SqliteError)"

subsection \<open>The methods\<close>

text \<open>
  \<^verbatim>\<open>SQLiteCache.get\<close>. \<^verbatim>\<open>json.loads(None)\<close> on a \<^verbatim>\<open>NULL\<close> payload raises \<^verbatim>\<open>TypeError\<close>, which
  the outer handler catches like a failure of the statement; \<^verbatim>\<open>JSONDecodeError\<close> is caught
  by the inner one. The method returns Python's \<^verbatim>\<open>None\<close> in all of these cases and on a
  miss.
\<close>

definition get :: "sqlite_cache \<Rightarrow> string \<Rightarrow> pyval outcome" where
  "get c k =
     (case select_value c k of
        Raise e \<Rightarrow> Return PNone
      | Return None \<Rightarrow> Return PNone
      | Return (Some None) \<Rightarrow> Return PNone
      | Return (Some (Some text)) \<Rightarrow>
          (case json_loads text of
             None \<Rightarrow> Return PNone
           | Some v \<Rightarrow> Return v))"

text \<open>
  \<^verbatim>\<open>SQLiteCache.set\<close> with \<open>now\<close> the value of \<^verbatim>\<open>time.time()\<close>: the outcome of the call and
  the cache after it. \<^verbatim>\<open>json.dumps\<close>, the statement and the commit all run inside the
  \<^verbatim>\<open>try\<close>; when the commit fails the row just written stays visible on the connection.
\<close>

definition set_entry :: "sqlite_cache \<Rightarrow> string \<Rightarrow> pyval \<Rightarrow> rat \<Rightarrow> unit outcome \<times> sqlite_cache" where
  "set_entry c k v now =
     (case json_dumps v of
        Raise e \<Rightarrow> (Return (), c)
      | Return text \<Rightarrow>
          (case insert_or_replace c k text now of
             Raise e \<Rightarrow> (Return (), c)
           | Return c' \<Rightarrow>
               (case commit c' of
                  Raise e \<Rightarrow> (Return (), c')
                | Return u \<Rightarrow> (Return (), c'))))"

text \<open>\<^verbatim>\<open>SQLiteCache.clear\<close>: no handler around the statement and the commit.\<close>

definition clear :: "sqlite_cache \<Rightarrow> unit outcome \<times> sqlite_cache" where
  "clear c =
     (case delete_all c of
        Raise e \<Rightarrow> (Raise e, c)
      | Return c' \<Rightarrow>
          (case commit c' of
             Raise e \<Rightarrow> (Raise e, c')
           | Return u \<Rightarrow> (Return (), c')))"

definition cutoff :: "sqlite_cache \<Rightarrow> rat \<Rightarrow> rat" where
  "cutoff c now = now - of_int (max_age_hours c * 3600)"

text \<open>\<^verbatim>\<open>SQLiteCache.clear_old_entries\<close>: no handler around the statements either.\<close>

definition clear_old_entries :: "sqlite_cache \<Rightarrow> rat \<Rightarrow> nat outcome \<times> sqlite_cache" where
  "clear_old_entries c now =
     (let cutoff_time = cutoff c now in
      case count_older c cutoff_time of
        Raise e \<Rightarrow> (Raise e, c)
      | Return count \<Rightarrow>
          (case delete_older c cutoff_time of
             Raise e \<Rightarrow> (Raise e, c)
           | Return c' \<Rightarrow>
               (case commit c' of
                  Raise e \<Rightarrow> (Raise e, c')
                | Return u \<Rightarrow> (Return count, c'))))"

text \<open>
  A cache on a fresh database file, after \<^verbatim>\<open>_init_db\<close> has created the empty table.
\<close>

definition new_cache :: "int \<Rightarrow> sqlite_cache" where
  "new_cache hours =
     \<lparr>statements_ok = True, commit_ok = True, cache_rows = [], max_age_hours = hours\<rparr>"

text \<open>
  What can happen to a cache between two observations: a call of one of its methods, or
  the storage layer going away or coming back.
\<close>

datatype cache_op =
    Get string
  | Set string pyval rat
  | Clear
  | ClearOld rat
  | StorageDown
  | StorageUp

fun apply_cache_op :: "sqlite_cache \<Rightarrow> cache_op \<Rightarrow> sqlite_cache" where
  "apply_cache_op c (Get k) = c"
| "apply_cache_op c (Set k v now) = snd (set_entry c k v now)"
| "apply_cache_op c Clear = snd (clear c)"
| "apply_cache_op c (ClearOld now) = snd (clear_old_entries c now)"
| "apply_cache_op c StorageDown = c\<lparr>statements_ok := False, commit_ok := False\<rparr>"
| "apply_cache_op c StorageUp = c\<lparr>statements_ok := True, commit_ok := True\<rparr>"


text \<open>The keys of the table are pairwise different.\<close>

definition unique_keys :: "sqlite_cache \<Rightarrow> bool" where
  "unique_keys c = distinct (map row_key (cache_rows c))"

text \<open>The payload and timestamp stored under a key, if any.\<close>

definition entry :: "sqlite_cache \<Rightarrow> string \<Rightarrow> (string option \<times> rat) option" where
  "entry c k = map_option (\<lambda>r. (row_value r, row_timestamp r)) (find (\<lambda>r. row_key r = k) (cache_rows c))"

section \<open>\<^verbatim>\<open>GoogleBooksAPI.search\<close> of \<^verbatim>\<open>apis/google_books.py\<close>\<close>

text \<open>A run that also shows the cache it leaves behind.\<close>

record 'a cache_run = "'a run" +
  cache_after :: sqlite_cache

text \<open>\<^verbatim>\<open>f"search:{query}:{lang}:{max_results}:{start_index}"\<close>\<close>

definition search_cache_key :: "string \<Rightarrow> string \<Rightarrow> int \<Rightarrow> int \<Rightarrow> string" where
  "search_cache_key query lang max_results start_index =
     ''search:'' @ query @ '':'' @ lang @ '':'' @ str_int max_results @ '':'' @ str_int start_index"

text \<open>
  The \<^verbatim>\<open>try\<close> block of the loop. Building the request, \<^verbatim>\<open>requests.get\<close>,
  \<^verbatim>\<open>raise_for_status\<close> and the conversion of the items into the list \<^verbatim>\<open>books\<close> are the
  external operation: \<open>fetch n\<close> is what they do after \<open>n\<close> earlier executions, the list
  or the exception raised. Then \<^verbatim>\<open>self.cache.set(cache_key, books)\<close> and \<^verbatim>\<open>return books\<close>.
\<close>

definition request_books ::
  "(nat \<Rightarrow> pyval outcome) \<Rightarrow> string \<Rightarrow> rat \<Rightarrow> sqlite_cache \<Rightarrow> nat \<Rightarrow> pyval outcome \<times> sqlite_cache" where
  "request_books fetch cache_key now c n =
     (case fetch n of
        Raise e \<Rightarrow> (Raise e, c)
      | Return books \<Rightarrow>
          (case set_entry c cache_key books now of
             (Raise e, c') \<Rightarrow> (Raise e, c')
           | (Return u, c') \<Rightarrow> (Return books, c')))"

text \<open>\<^verbatim>\<open>return []\<close> from a handler\<close>

definition give_up :: "nat \<Rightarrow> rat list \<Rightarrow> sqlite_cache \<Rightarrow> pyval cache_run" where
  "give_up n slept c = \<lparr>result = Return (PList []), calls = n, sleeps = slept, cache_after = c\<rparr>"

text \<open>
  \<^verbatim>\<open>while retry_count < Config.MAX_RETRIES\<close> with its four handlers, in the order of the
  source: \<^verbatim>\<open>HTTPError\<close>, \<^verbatim>\<open>Timeout\<close>, \<^verbatim>\<open>RequestException\<close>, \<^verbatim>\<open>Exception\<close>. \<open>retry_count\<close>
  starts at 0 and is only ever incremented, so it is a natural number; \<open>MAX_RETRIES\<close> is
  whatever integer the configuration holds.
\<close>

function search_loop ::
  "int \<Rightarrow> (nat \<Rightarrow> pyval outcome) \<Rightarrow> string \<Rightarrow> rat \<Rightarrow> sqlite_cache \<Rightarrow> nat \<Rightarrow> nat \<Rightarrow> rat list
     \<Rightarrow> pyval cache_run" where
  "search_loop MAX_RETRIES fetch cache_key now c retry_count n slept =
     (if int retry_count < MAX_RETRIES then
        (case request_books fetch cache_key now c n of
           (Return books, c') \<Rightarrow>
             \<lparr>result = Return books, calls = Suc n, sleeps = slept, cache_after = c'\<rparr>
         | (Raise e, c') \<Rightarrow>
             (case e of
                HTTPError response \<Rightarrow>
                  if response = Some 429 then
                    if int (retry_count + 1) \<ge> MAX_RETRIES then give_up (Suc n) slept c'
                    else search_loop MAX_RETRIES fetch cache_key now c' (retry_count + 1) (Suc n)
                           (slept @ [2 ^ (retry_count + 1)])
                  else give_up (Suc n) slept c'
              | Timeout \<Rightarrow>
                  if int (retry_count + 1) \<ge> MAX_RETRIES then give_up (Suc n) slept c'
                  else search_loop MAX_RETRIES fetch cache_key now c' (retry_count + 1) (Suc n)
                         (slept @ [1])
              | RequestException response \<Rightarrow>
                  if response = Some 429 then
                    if int (retry_count + 1) \<ge> MAX_RETRIES then give_up (Suc n) slept c'
                    else search_loop MAX_RETRIES fetch cache_key now c' (retry_count + 1) (Suc n)
                           (slept @ [2 ^ (retry_count + 1)])
                  else give_up (Suc n) slept c'
              | _ \<Rightarrow> give_up (Suc n) slept c'))
      else give_up n slept c)"
  by pat_completeness auto
termination
  by (relation "measure (\<lambda>(M, fetch, cache_key, now, c, retry_count, n, slept). nat (M - int retry_count))")
    auto

declare search_loop.simps [simp del]

text \<open>
  \<^verbatim>\<open>GoogleBooksAPI.search\<close>. The cache is consulted outside the \<^verbatim>\<open>try\<close>, so an exception
  of \<^verbatim>\<open>get\<close> would leave the method.
\<close>

definition search ::
  "int \<Rightarrow> sqlite_cache \<Rightarrow> (nat \<Rightarrow> pyval outcome) \<Rightarrow> rat \<Rightarrow> string \<Rightarrow> int \<Rightarrow> string \<Rightarrow> int
     \<Rightarrow> pyval cache_run" where
  "search MAX_RETRIES c fetch now query max_results lang start_index =
     (let cache_key = search_cache_key query lang max_results start_index in
      case get c cache_key of
        Raise e \<Rightarrow> \<lparr>result = Raise e, calls = 0, sleeps = [], cache_after = c\<rparr>
      | Return cached \<Rightarrow>
          if truthy cached then \<lparr>result = Return cached, calls = 0, sleeps = [], cache_after = c\<rparr>
          else search_loop MAX_RETRIES fetch cache_key now c 0 0 [])"

text \<open>
  The handlers of the loop, read as a table: the delay slept after exception \<open>e\<close> when the
  counter stands at \<open>retry_count\<close> before its increment, \<open>None\<close> where the handler returns
  the empty list at once. Used to state and prove facts about \<open>search_loop\<close>.
\<close>

definition retry_delay :: "py_exc \<Rightarrow> nat \<Rightarrow> rat option" where
  "retry_delay e retry_count =
     (if e = HTTPError (Some 429) \<or> e = RequestException (Some 429) then Some (2 ^ (retry_count + 1))
      else if e = Timeout then Some 1
      else None)"

definition retried :: "py_exc \<Rightarrow> bool" where
  "retried e = (e = Timeout \<or> e = HTTPError (Some 429) \<or> e = RequestException (Some 429))"

section \<open>\<^verbatim>\<open>AIRecommendationEngine.get_captions\<close> of \<^verbatim>\<open>apis/openai_engine.py\<close>\<close>









section \<open>Properties of the retry decorator\<close>






lemma wrapper_loop_all_fail:
  assumes "\<forall>m. \<exists>e. f m = Raise e \<and> retryable e" "0 \<le> d" "0 \<le> b"
  shows "calls (wrapper_loop mr b f as d lx n sl) = n + length as
     \<and> (as \<noteq> [] \<longrightarrow> result (wrapper_loop mr b f as d lx n sl) = f (n + length as - 1))"
  using assms(2)
proof (induction as arbitrary: d lx n sl)
  case Nil
  then show ?case by simp
next
  case (Cons a as)
  from assms(1) obtain e where e: "f n = Raise e" "retryable e" by blast
  have db: "0 \<le> d * b" using Cons.prems assms(3) by simp
  show ?case
  proof (cases as)
    case Nil
    with e Cons.prems show ?thesis by simp
  next
    case (Cons a' as')
    with e Cons.prems Cons.IH [OF db, of "Some e" "Suc n" "sl @ [d]"]
      Cons.IH [OF Cons.prems, of "Some e" "Suc n" sl]
    show ?thesis by simp
  qed
qed

lemma wrapper_all_fail:
  assumes "\<forall>m. \<exists>e. f m = Raise e \<and> retryable e" "0 \<le> d" "0 \<le> b" "0 \<le> mr"
  shows "calls (wrapper mr d b f) = nat mr + 1 \<and> result (wrapper mr d b f) = f (nat mr)"
  using wrapper_loop_all_fail [OF assms(1-3), of mr "[0..<nat (mr + 1)]" None 0 "[]"] assms(4)
  by (simp add: wrapper_def nat_add_distrib)

lemma wrapper_not_retryable:
  assumes "0 \<le> mr" "f 0 = Raise e" "\<not> retryable e"
  shows "wrapper mr d b f = \<lparr>result = Raise e, calls = 1, sleeps = []\<rparr>"
proof -
  from assms(1) have "[0..<nat (mr + 1)] = 0 # [1..<nat (mr + 1)]"
    by (simp add: upt_conv_Cons)
  with assms(2,3) show ?thesis by (simp add: wrapper_def)
qed



section \<open>Properties of the search loop\<close>



lemma set_entry_returns: "fst (set_entry c k v now) = Return ()"
  by (simp add: set_entry_def split: outcome.splits)

lemma request_books_eq:
  "request_books fetch k now c n =
     (case fetch n of
        Raise e \<Rightarrow> (Raise e, c)
      | Return books \<Rightarrow> (Return books, snd (set_entry c k books now)))"
proof (cases "fetch n")
  case (Return books)
  obtain u c' where s: "set_entry c k books now = (u, c')" by (cases "set_entry c k books now")
  with set_entry_returns [of c k books now] have "u = Return ()" by simp
  with s Return show ?thesis by (simp add: request_books_def)
next
  case (Raise e)
  then show ?thesis by (simp add: request_books_def)
qed

lemma search_loop_step:
  "search_loop M fetch k now c rc n sl =
     (if int rc < M then
        (case fetch n of
           Return books \<Rightarrow>
             \<lparr>result = Return books, calls = Suc n, sleeps = sl,
              cache_after = snd (set_entry c k books now)\<rparr>
         | Raise e \<Rightarrow>
             (case retry_delay e rc of
                None \<Rightarrow> give_up (Suc n) sl c
              | Some d \<Rightarrow>
                  if M \<le> int (rc + 1) then give_up (Suc n) sl c
                  else search_loop M fetch k now c (rc + 1) (Suc n) (sl @ [d])))
      else give_up n sl c)"
proof (cases "int rc < M")
  case False
  then show ?thesis by (subst search_loop.simps) simp
next
  case True
  show ?thesis
  proof (cases "fetch n")
    case (Return books)
    with True show ?thesis
      by (subst search_loop.simps) (simp add: request_books_eq)
  next
    case (Raise e)
    with True show ?thesis
      by (subst search_loop.simps, cases e)
        (simp_all add: request_books_eq retry_delay_def)
  qed
qed


lemma give_up_simps [simp]:
  "result (give_up n sl c) = Return (PList [])" "calls (give_up n sl c) = n"
  "sleeps (give_up n sl c) = sl" "cache_after (give_up n sl c) = c"
  by (simp_all add: give_up_def)

lemma search_loop_returns: "\<exists>v. result (search_loop M fetch k now c rc n sl) = Return v"
proof (induction "nat (M - int rc)" arbitrary: rc n sl)
  case 0
  then show ?case by (subst search_loop_step) simp
next
  case (Suc x)
  then have "x = nat (M - int (rc + 1))" by simp
  from Suc.hyps(1) [OF this] show ?case
    by (subst search_loop_step) (simp split: outcome.splits option.splits)
qed


lemma search_loop_all_fail:
  assumes "\<forall>m. n \<le> m \<and> m < calls (search_loop M fetch k now c rc n sl) \<longrightarrow> (\<exists>e. fetch m = Raise e)"
  shows "result (search_loop M fetch k now c rc n sl) = Return (PList [])"
  using assms
proof (induction "nat (M - int rc)" arbitrary: rc n sl)
  case 0
  then show ?case by (subst search_loop_step) simp
next
  case (Suc x)
  then have x: "x = nat (M - int (rc + 1))" and lt: "int rc < M" by simp_all
  show ?case
  proof (cases "fetch n")
    case (Return books)
    with lt have "calls (search_loop M fetch k now c rc n sl) = Suc n"
      by (subst search_loop_step) simp
    with Suc.prems Return show ?thesis by auto
  next
    case (Raise e)
    show ?thesis
    proof (cases "retry_delay e rc")
      case None
      with Raise lt show ?thesis by (subst search_loop_step) simp
    next
      case (Some d)
      show ?thesis
      proof (cases "M \<le> int (rc + 1)")
        case True
        with Some Raise lt show ?thesis by (subst search_loop_step) simp
      next
        case False
        with Some Raise lt
        have eq: "search_loop M fetch k now c rc n sl = search_loop M fetch k now c (rc + 1) (Suc n) (sl @ [d])"
          by (subst search_loop_step) simp
        have "result (search_loop M fetch k now c (rc + 1) (Suc n) (sl @ [d])) = Return (PList [])"
          using Suc.prems unfolding eq by (intro Suc.hyps(1) [OF x]) auto
        with eq show ?thesis by simp
      qed
    qed
  qed
qed




lemma retry_delay_retried: "retried e \<Longrightarrow> \<exists>d. retry_delay e rc = Some d"
  by (auto simp: retried_def retry_delay_def)

lemma search_loop_all_retried:
  assumes "\<forall>m. \<exists>e. fetch m = Raise e \<and> retried e"
  shows "calls (search_loop M fetch k now c rc n sl) = n + nat (M - int rc)"
proof (induction "nat (M - int rc)" arbitrary: rc n sl)
  case 0
  then show ?case by (subst search_loop_step) simp
next
  case (Suc x)
  then have x: "x = nat (M - int (rc + 1))" and lt: "int rc < M" by simp_all
  from assms obtain e where e: "fetch n = Raise e" "retried e" by blast
  then obtain d where d: "retry_delay e rc = Some d" using retry_delay_retried by blast
  show ?case
  proof (cases "M \<le> int (rc + 1)")
    case True
    with e d lt show ?thesis by (subst search_loop_step) simp
  next
    case False
    with e d lt Suc.hyps(1) [OF x, of "Suc n" "sl @ [d]"] show ?thesis
      by (subst search_loop_step) simp
  qed
qed

lemma get_returns: "\<exists>v. get c k = Return v"
  by (simp add: get_def split: outcome.splits option.splits)

lemma search_unfold_miss:
  assumes "get c (search_cache_key q l m s) = Return cached" "\<not> truthy cached"
  shows "search M c fetch now q m l s = search_loop M fetch (search_cache_key q l m s) now c 0 0 []"
  using assms by (simp add: search_def)


text \<open>
  C1. What the two retry loops do with an operation that fails with a retried error every
  time. The decorator invokes it \<open>max_retries + 1\<close> times, as the claim says.
  \<^verbatim>\<open>GoogleBooksAPI.search\<close> invokes it \<^verbatim>\<open>MAX_RETRIES\<close> times, one time fewer than the claim
  says, and then returns the empty list: with \<^verbatim>\<open>MAX_RETRIES = 3\<close> three requests and the
  delays \<open>2, 4\<close>, where the comment in the source announces \<open>2s, 4s, 8s\<close>.
\<close>

theorem retry_invocation_counts:
  "(0 \<le> max_retries \<and> 0 \<le> delay \<and> 0 \<le> backoff \<and> (\<forall>n. \<exists>e. func n = Raise e \<and> retryable e)
      \<longrightarrow> calls (wrapper max_retries delay backoff func) = nat max_retries + 1)
   \<and> (get c (search_cache_key q l m s) = Return cached \<and> \<not> truthy cached
        \<and> (\<forall>n. \<exists>e. fetch n = Raise e \<and> retried e)
      \<longrightarrow> calls (search M c fetch now q m l s) = nat M
          \<and> result (search M c fetch now q m l s) = Return (PList []))"
proof (intro conjI impI)
  assume "0 \<le> max_retries \<and> 0 \<le> delay \<and> 0 \<le> backoff \<and> (\<forall>n. \<exists>e. func n = Raise e \<and> retryable e)"
  then show "calls (wrapper max_retries delay backoff func) = nat max_retries + 1"
    using wrapper_all_fail [of func delay backoff max_retries] by simp
next
  assume a: "get c (search_cache_key q l m s) = Return cached \<and> \<not> truthy cached
        \<and> (\<forall>n. \<exists>e. fetch n = Raise e \<and> retried e)"
  then have eq: "search M c fetch now q m l s = search_loop M fetch (search_cache_key q l m s) now c 0 0 []"
    by (simp add: search_unfold_miss)
  from a have all: "\<forall>n. \<exists>e. fetch n = Raise e \<and> retried e" by simp
  from search_loop_all_retried [OF all, of M "search_cache_key q l m s" now c 0 0 "[]"]
  show "calls (search M c fetch now q m l s) = nat M" by (simp add: eq)
  from all have "\<forall>n. 0 \<le> n \<and> n < calls (search_loop M fetch (search_cache_key q l m s) now c 0 0 [])
      \<longrightarrow> (\<exists>e. fetch n = Raise e)"
    by blast
  then have "result (search_loop M fetch (search_cache_key q l m s) now c 0 0 []) = Return (PList [])"
    by (rule search_loop_all_fail)
  then show "result (search M c fetch now q m l s) = Return (PList [])" by (simp add: eq)
qed

theorem retry_invocation_counts_witness:
  "calls (wrapper 3 1 2 (\<lambda>n. Raise RateLimitError :: pyval outcome)) = 3 + 1
   \<and> get (new_cache 24) (search_cache_key ''dune'' ''en'' 20 0) = Return PNone
   \<and> calls (search 3 (new_cache 24) (\<lambda>n. Raise Timeout) 0 ''dune'' 20 ''en'' 0) = 3
   \<and> result (search 3 (new_cache 24) (\<lambda>n. Raise Timeout) 0 ''dune'' 20 ''en'' 0) = Return (PList [])
   \<and> sleeps (search 3 (new_cache 24) (\<lambda>n. Raise (HTTPError (Some 429))) 0 ''dune'' 20 ''en'' 0) = [2, 4]"
proof -
  have g: "get (new_cache 24) (search_cache_key ''dune'' ''en'' 20 0) = Return PNone"
    by (simp add: get_def select_value_def new_cache_def)
  have f: "\<forall>n::nat. \<exists>e. (Raise RateLimitError :: pyval outcome) = Raise e \<and> retryable e"
    "\<forall>n::nat. \<exists>e. (Raise Timeout :: pyval outcome) = Raise e \<and> retried e"
    by (simp_all add: retried_def)
  have sl: "sleeps (search 3 (new_cache 24) (\<lambda>n. Raise (HTTPError (Some 429))) 0 ''dune'' 20 ''en'' 0) = [2, 4]"
    by (simp add: search_def Let_def g search_loop_step retry_delay_def)
  from retry_invocation_counts [of 3 1 2 "\<lambda>n. Raise RateLimitError :: pyval outcome" "new_cache 24"
      "''dune''" "''en''" 20 0 PNone "\<lambda>n. Raise Timeout" 3 0] g f sl
  show ?thesis by simp
qed




text \<open>
  C4, as the claim states it, fails for the decorator: an authentication failure or a
  malformed request is an \<^verbatim>\<open>APIError\<close> of the client, so the decorator catches it, sleeps and
  retries like after a rate limit, \<open>max_retries + 1\<close> invocations in all, and raises it only
  then.
\<close>

theorem authentication_error_is_retried:
  "calls (wrapper 3 1 2 (\<lambda>n. Raise AuthenticationError :: pyval outcome)) = 4
   \<and> sleeps (wrapper 3 1 2 (\<lambda>n. Raise AuthenticationError :: pyval outcome)) = [1, 2, 4]
   \<and> result (wrapper 3 1 2 (\<lambda>n. Raise AuthenticationError :: pyval outcome)) = Raise AuthenticationError
   \<and> calls (wrapper 3 1 2 (\<lambda>n. Raise BadRequestError :: pyval outcome)) \<noteq> 1"
  by (simp add: wrapper_def upt_conv_Cons)

text \<open>
  C4, amended. An operation whose first invocation fails with an error that the loop does
  not retry is invoked exactly once, nothing is slept, and the call ends at once: the
  decorator re-raises the error, \<^verbatim>\<open>GoogleBooksAPI.search\<close> returns the empty list. For the
  decorator the errors it does not retry are the exceptions that are no \<^verbatim>\<open>APIError\<close> of the
  client (authentication failures and malformed requests are such errors and are retried);
  for \<^verbatim>\<open>search\<close> they are everything but a timeout and a response with status 429.
\<close>

theorem non_retryable_short_circuit:
  "(0 \<le> max_retries \<and> func 0 = Raise e \<and> \<not> retryable e
      \<longrightarrow> wrapper max_retries delay backoff func = \<lparr>result = Raise e, calls = 1, sleeps = []\<rparr>)
   \<and> (1 \<le> M \<and> get c (search_cache_key q l m s) = Return cached \<and> \<not> truthy cached
        \<and> fetch 0 = Raise e' \<and> e' \<noteq> Timeout \<and> e' \<noteq> HTTPError (Some 429)
        \<and> e' \<noteq> RequestException (Some 429)
      \<longrightarrow> search M c fetch now q m l s
            = \<lparr>result = Return (PList []), calls = 1, sleeps = [], cache_after = c\<rparr>)"
proof (intro conjI impI)
  assume "0 \<le> max_retries \<and> func 0 = Raise e \<and> \<not> retryable e"
  then show "wrapper max_retries delay backoff func = \<lparr>result = Raise e, calls = 1, sleeps = []\<rparr>"
    by (simp add: wrapper_not_retryable)
next
  assume a: "1 \<le> M \<and> get c (search_cache_key q l m s) = Return cached \<and> \<not> truthy cached
        \<and> fetch 0 = Raise e' \<and> e' \<noteq> Timeout \<and> e' \<noteq> HTTPError (Some 429)
        \<and> e' \<noteq> RequestException (Some 429)"
  then have "retry_delay e' 0 = None" by (simp add: retry_delay_def)
  with a show "search M c fetch now q m l s
            = \<lparr>result = Return (PList []), calls = 1, sleeps = [], cache_after = c\<rparr>"
    by (simp add: search_def search_loop_step give_up_def)
qed

theorem non_retryable_short_circuit_witness:
  "wrapper 3 1 2 (\<lambda>n. Raise ValueError :: pyval outcome) = \<lparr>result = Raise ValueError, calls = 1, sleeps = []\<rparr>
   \<and> get (new_cache 24) (search_cache_key ''dune'' ''en'' 20 0) = Return PNone
   \<and> search 3 (new_cache 24) (\<lambda>n. Raise (HTTPError (Some 404))) 0 ''dune'' 20 ''en'' 0
       = \<lparr>result = Return (PList []), calls = 1, sleeps = [], cache_after = new_cache 24\<rparr>"
proof -
  have g: "get (new_cache 24) (search_cache_key ''dune'' ''en'' 20 0) = Return PNone"
    by (simp add: get_def select_value_def new_cache_def)
  from non_retryable_short_circuit [of 3 "\<lambda>n. Raise ValueError :: pyval outcome" ValueError 1 2 3
      "new_cache 24" "''dune''" "''en''" 20 0 PNone "\<lambda>n. Raise (HTTPError (Some 404))"
      "HTTPError (Some 404)" 0] g
  show ?thesis by simp
qed

text \<open>
  C9. \<^verbatim>\<open>GoogleBooksAPI.search\<close> never raises: for every configuration, cache, behaviour of the
  request and input it returns a value. When the cache holds nothing usable and every
  request it makes fails, be it with a retried error until the retries are used up or
  with any other exception, the value is the empty list.
\<close>

theorem search_fails_soft:
  "(\<exists>v. result (search M c fetch now q m l s) = Return v)
   \<and> (get c (search_cache_key q l m s) = Return cached \<and> \<not> truthy cached
        \<and> (\<forall>n < calls (search M c fetch now q m l s). \<exists>e. fetch n = Raise e)
      \<longrightarrow> result (search M c fetch now q m l s) = Return (PList []))"
proof (intro conjI impI)
  obtain v where g: "get c (search_cache_key q l m s) = Return v"
    using get_returns by blast
  show "\<exists>v. result (search M c fetch now q m l s) = Return v"
  proof (cases "truthy v")
    case True
    with g show ?thesis by (simp add: search_def)
  next
    case False
    from search_loop_returns [of M fetch "search_cache_key q l m s" now c 0 0 "[]"]
    show ?thesis by (simp add: search_unfold_miss [OF g False])
  qed
next
  assume a: "get c (search_cache_key q l m s) = Return cached \<and> \<not> truthy cached
        \<and> (\<forall>n < calls (search M c fetch now q m l s). \<exists>e. fetch n = Raise e)"
  then have eq: "search M c fetch now q m l s = search_loop M fetch (search_cache_key q l m s) now c 0 0 []"
    by (simp add: search_unfold_miss)
  from a have "\<forall>n. 0 \<le> n \<and> n < calls (search_loop M fetch (search_cache_key q l m s) now c 0 0 [])
      \<longrightarrow> (\<exists>e. fetch n = Raise e)"
    unfolding eq by simp
  then have "result (search_loop M fetch (search_cache_key q l m s) now c 0 0 []) = Return (PList [])"
    by (rule search_loop_all_fail)
  with eq show "result (search M c fetch now q m l s) = Return (PList [])" by simp
qed

theorem search_fails_soft_witness:
  "get ((new_cache 24)\<lparr>statements_ok := False\<rparr>) (search_cache_key ''dune'' ''en'' 20 0) = Return PNone
   \<and> calls (search 3 ((new_cache 24)\<lparr>statements_ok := False\<rparr>)
        (\<lambda>n. if n = 0 then Raise Timeout else Raise OtherException) 0 ''dune'' 20 ''en'' 0) = 2
   \<and> result (search 3 ((new_cache 24)\<lparr>statements_ok := False\<rparr>)
        (\<lambda>n. if n = 0 then Raise Timeout else Raise OtherException) 0 ''dune'' 20 ''en'' 0)
       = Return (PList [])"
proof -
  have g: "get ((new_cache 24)\<lparr>statements_ok := False\<rparr>) (search_cache_key ''dune'' ''en'' 20 0) = Return PNone"
    by (simp add: get_def select_value_def new_cache_def)
  have n: "calls (search 3 ((new_cache 24)\<lparr>statements_ok := False\<rparr>)
        (\<lambda>n. if n = 0 then Raise Timeout else Raise OtherException) 0 ''dune'' 20 ''en'' 0) = 2"
    by (simp add: search_def g search_loop_step retry_delay_def)
  have "\<forall>k < 2. \<exists>e. (if k = 0 then Raise Timeout else Raise OtherException :: pyval outcome) = Raise e"
    by simp
  with search_fails_soft [of 3 "(new_cache 24)\<lparr>statements_ok := False\<rparr>"
      "\<lambda>n. if n = 0 then Raise Timeout else Raise OtherException" 0 "''dune''" 20 "''en''" 0 PNone] g n
  show ?thesis by simp
qed

section \<open>Properties of the cache\<close>

lemma storage_ok_iff [simp]: "storage_ok c \<longleftrightarrow> statements_ok c \<and> commit_ok c"
  by (simp add: storage_ok_def)

lemma get_by_entry:
  "get c k =
     (if statements_ok c then
        (case entry c k of
           Some (Some text, ts) \<Rightarrow> (case json_loads text of None \<Rightarrow> Return PNone | Some v \<Rightarrow> Return v)
         | _ \<Rightarrow> Return PNone)
      else Return PNone)"
  by (simp add: get_def select_value_def entry_def split: option.splits)


lemma clear_old_entries_eq:
  "clear_old_entries c now =
     (if statements_ok c then
        (if commit_ok c
         then Return (length (filter (\<lambda>r. row_timestamp r < cutoff c now) (cache_rows c)))
         else Raise SqliteError,
         c\<lparr>cache_rows := filter (\<lambda>r. \<not> row_timestamp r < cutoff c now) (cache_rows c)\<rparr>)
      else (Raise SqliteError, c))"
  by (simp add: clear_old_entries_def count_older_def delete_older_def commit_def Let_def)

lemma set_entry_eq:
  "set_entry c k v now =
     (Return (),
      if encodable v \<and> statements_ok c then
        c\<lparr>cache_rows := filter (\<lambda>r. row_key r \<noteq> k) (cache_rows c)
            @ [\<lparr>row_key = k, row_value = Some (dumps_text v), row_timestamp = now\<rparr>]\<rparr>
      else c)"
  by (simp add: set_entry_def json_dumps_def insert_or_replace_def commit_def)

lemma find_filter_unique:
  assumes "distinct (map row_key rows)" "find (\<lambda>r. row_key r = k) rows = Some r"
  shows "find (\<lambda>r. row_key r = k) (filter P rows) = (if P r then Some r else None)"
  using assms
proof (induction rows)
  case Nil
  then show ?case by simp
next
  case (Cons x rows)
  show ?case
  proof (cases "row_key x = k")
    case True
    with Cons.prems have r: "x = r" and "k \<notin> row_key ` set rows" by auto
    then have "find (\<lambda>r. row_key r = k) (filter P rows) = None"
      by (auto simp: find_None_iff)
    with True r show ?thesis by simp
  next
    case False
    with Cons show ?thesis by simp
  qed
qed

lemma find_filter_none:
  "find (\<lambda>r. row_key r = k) rows = None \<Longrightarrow> find (\<lambda>r. row_key r = k) (filter P rows) = None"
  by (auto simp: find_None_iff)

lemma find_append_case:
  "find P (xs @ ys) = (case find P xs of None \<Rightarrow> find P ys | Some x \<Rightarrow> Some x)"
  by (induction xs) simp_all

lemma entry_set_entry_same:
  assumes "encodable v" "statements_ok c"
  shows "entry (snd (set_entry c k v now)) k = Some (Some (dumps_text v), now)"
proof -
  have "find (\<lambda>r. row_key r = k) (filter (\<lambda>r. row_key r \<noteq> k) (cache_rows c)) = None"
    by (auto simp: find_None_iff)
  with assms show ?thesis
    by (simp add: set_entry_eq entry_def find_append_case)
qed



lemma storage_ok_set_entry:
  "statements_ok (snd (set_entry c k v now)) = statements_ok c"
  "commit_ok (snd (set_entry c k v now)) = commit_ok c"
  by (simp_all add: set_entry_eq)

lemma unique_keys_set_entry: "unique_keys c \<Longrightarrow> unique_keys (snd (set_entry c k v now))"
  by (auto simp: set_entry_eq unique_keys_def distinct_map_filter)

lemma unique_keys_apply:
  assumes "unique_keys c"
  shows "unique_keys (apply_cache_op c op)"
proof (cases op)
  case (Set k v now)
  with assms show ?thesis by (simp add: unique_keys_set_entry)
next
  case Clear
  with assms show ?thesis
    by (simp add: clear_def delete_all_def commit_def unique_keys_def)
next
  case (ClearOld now)
  with assms show ?thesis
    by (simp add: clear_old_entries_eq unique_keys_def distinct_map_filter)
qed (use assms in \<open>simp_all add: unique_keys_def\<close>)

lemma unique_keys_foldl: "unique_keys c \<Longrightarrow> unique_keys (foldl apply_cache_op c ops)"
  by (induction ops arbitrary: c) (simp_all add: unique_keys_apply)

text \<open>
  C7. When \<^verbatim>\<open>clear_old_entries\<close> runs at time \<open>now\<close> on a storage layer that answers, it
  returns the number of rows it removed; an entry whose age \<open>now - ts\<close> exceeds
  \<open>max_age_hours\<close> hours is gone afterwards and \<^verbatim>\<open>get\<close> reports it absent; an entry younger
  than that is still there with its payload and timestamp, and \<^verbatim>\<open>get\<close> answers as before.
\<close>

theorem clear_old_entries_evicts_by_age:
  assumes "storage_ok c" "unique_keys c"
  shows "fst (clear_old_entries c now)
           = Return (length (cache_rows c) - length (cache_rows (snd (clear_old_entries c now))))
    \<and> (\<forall>k p ts. entry c k = Some (p, ts) \<longrightarrow>
          (of_int (max_age_hours c) * 3600 < now - ts \<longrightarrow>
             entry (snd (clear_old_entries c now)) k = None
             \<and> get (snd (clear_old_entries c now)) k = Return PNone)
        \<and> (now - ts < of_int (max_age_hours c) * 3600 \<longrightarrow>
             entry (snd (clear_old_entries c now)) k = Some (p, ts)
             \<and> get (snd (clear_old_entries c now)) k = get c k))"
proof (intro conjI allI impI)
  have "length (filter (\<lambda>r. row_timestamp r < cutoff c now) (cache_rows c))
          + length (filter (\<lambda>r. \<not> row_timestamp r < cutoff c now) (cache_rows c))
        = length (cache_rows c)"
    by (rule sum_length_filter_compl)
  with assms(1) [unfolded storage_ok_def] show "fst (clear_old_entries c now)
      = Return (length (cache_rows c) - length (cache_rows (snd (clear_old_entries c now))))"
    by (simp add: clear_old_entries_eq)
next
  fix k p ts
  assume e: "entry c k = Some (p, ts)"
  then obtain r where r: "find (\<lambda>r. row_key r = k) (cache_rows c) = Some r"
    and p: "row_value r = p" and ts: "row_timestamp r = ts"
    by (auto simp: entry_def)
  from assms(2) have d: "distinct (map row_key (cache_rows c))" by (simp add: unique_keys_def)
  note f = find_filter_unique [OF d r, of "\<lambda>r. \<not> row_timestamp r < cutoff c now"]
  {
    assume old: "of_int (max_age_hours c) * 3600 < now - ts"
    then have "ts < cutoff c now" by (simp add: cutoff_def algebra_simps)
    with f ts assms(1) [unfolded storage_ok_def] show gone: "entry (snd (clear_old_entries c now)) k = None"
      by (simp add: clear_old_entries_eq entry_def)
    then show "get (snd (clear_old_entries c now)) k = Return PNone"
      by (simp add: get_by_entry)
  }
  {
    assume young: "now - ts < of_int (max_age_hours c) * 3600"
    then have "\<not> ts < cutoff c now" by (simp add: cutoff_def algebra_simps)
    with f ts p r assms(1) [unfolded storage_ok_def] show kept: "entry (snd (clear_old_entries c now)) k = Some (p, ts)"
      by (simp add: clear_old_entries_eq entry_def)
    with e assms(1) [unfolded storage_ok_def] show "get (snd (clear_old_entries c now)) k = get c k"
      by (simp add: get_by_entry clear_old_entries_eq)
  }
qed

theorem clear_old_entries_evicts_by_age_witness:
  "storage_ok \<lparr>statements_ok = True, commit_ok = True,
       cache_rows = [\<lparr>row_key = ''q1'', row_value = Some ''[]'', row_timestamp = 0\<rparr>,
                     \<lparr>row_key = ''q2'', row_value = Some ''[]'', row_timestamp = 3000\<rparr>],
       max_age_hours = 1\<rparr>
   \<and> unique_keys \<lparr>statements_ok = True, commit_ok = True,
       cache_rows = [\<lparr>row_key = ''q1'', row_value = Some ''[]'', row_timestamp = 0\<rparr>,
                     \<lparr>row_key = ''q2'', row_value = Some ''[]'', row_timestamp = 3000\<rparr>],
       max_age_hours = 1\<rparr>
   \<and> fst (clear_old_entries \<lparr>statements_ok = True, commit_ok = True,
       cache_rows = [\<lparr>row_key = ''q1'', row_value = Some ''[]'', row_timestamp = 0\<rparr>,
                     \<lparr>row_key = ''q2'', row_value = Some ''[]'', row_timestamp = 3000\<rparr>],
       max_age_hours = 1\<rparr> 3660) = Return 1
   \<and> entry (snd (clear_old_entries \<lparr>statements_ok = True, commit_ok = True,
       cache_rows = [\<lparr>row_key = ''q1'', row_value = Some ''[]'', row_timestamp = 0\<rparr>,
                     \<lparr>row_key = ''q2'', row_value = Some ''[]'', row_timestamp = 3000\<rparr>],
       max_age_hours = 1\<rparr> 3660)) ''q1'' = None
   \<and> entry (snd (clear_old_entries \<lparr>statements_ok = True, commit_ok = True,
       cache_rows = [\<lparr>row_key = ''q1'', row_value = Some ''[]'', row_timestamp = 0\<rparr>,
                     \<lparr>row_key = ''q2'', row_value = Some ''[]'', row_timestamp = 3000\<rparr>],
       max_age_hours = 1\<rparr> 3660)) ''q2'' = Some (Some ''[]'', 3000)"
  using clear_old_entries_evicts_by_age [of "\<lparr>statements_ok = True, commit_ok = True,
       cache_rows = [\<lparr>row_key = ''q1'', row_value = Some ''[]'', row_timestamp = 0\<rparr>,
                     \<lparr>row_key = ''q2'', row_value = Some ''[]'', row_timestamp = 3000\<rparr>],
       max_age_hours = 1\<rparr>" 3660]
  by (simp add: unique_keys_def entry_def clear_old_entries_eq cutoff_def storage_ok_def)




section \<open>Decoding what \<^verbatim>\<open>json.dumps\<close> wrote\<close>

declare digits_of.simps [simp del]

subsection \<open>Strings\<close>

lemma hex_val_hex_char: "d < 16 \<Longrightarrow> hex_val (hex_char d) = Some d"
  by (auto simp: hex_val_def hex_char_def Let_def)

lemma hex4_escape:
  "hex4 (CHR ''0'') (CHR ''0'') (hex_char ((of_char c :: nat) div 16)) (hex_char ((of_char c :: nat) mod 16))
     = Some (of_char c)"
proof -
  have lt: "(of_char c :: nat) < 256" by simp
  then have "(of_char c :: nat) div 16 < 16" by presburger
  then have hi: "hex_val (hex_char ((of_char c :: nat) div 16)) = Some ((of_char c :: nat) div 16)"
    by (rule hex_val_hex_char)
  have lo: "hex_val (hex_char ((of_char c :: nat) mod 16)) = Some ((of_char c :: nat) mod 16)"
    by (rule hex_val_hex_char) simp
  have zero: "hex_val (CHR ''0'') = Some 0" by (simp add: hex_val_def)
  show ?thesis by (simp add: hex4_def hi lo zero)
qed

lemma scanstring_escape_char:
  "scanstring (escape_char c @ rest) = cons_fst c (scanstring rest)"
proof -
  consider (special) "c = dquote \<or> c = backslash \<or> c = CHR 0x0A \<or> c = CHR 0x0D \<or> c = CHR 0x09
      \<or> c = CHR 0x08 \<or> c = CHR 0x0C"
    | (hex) "c \<noteq> dquote" "c \<noteq> backslash" "c \<noteq> CHR 0x0A" "c \<noteq> CHR 0x0D" "c \<noteq> CHR 0x09"
        "c \<noteq> CHR 0x08" "c \<noteq> CHR 0x0C" "(of_char c :: nat) < 32 \<or> 126 < (of_char c :: nat)"
    | (plain) "c \<noteq> dquote" "c \<noteq> backslash" "\<not> (of_char c :: nat) < 32" "\<not> 126 < (of_char c :: nat)"
        "c \<noteq> CHR 0x0A" "c \<noteq> CHR 0x0D" "c \<noteq> CHR 0x09" "c \<noteq> CHR 0x08" "c \<noteq> CHR 0x0C"
    by blast
  then show ?thesis
  proof cases
    case special
    then show ?thesis
      by (auto simp: escape_char_def unescape_def dquote_def backslash_def)
  next
    case hex
    have "(of_char c :: nat) < 256" by simp
    with hex show ?thesis
      by (simp add: escape_char_def hex4_escape) (simp add: dquote_def backslash_def)
  next
    case plain
    then show ?thesis by (simp add: escape_char_def)
  qed
qed

lemma scanstring_escaped:
  "scanstring (concat (map escape_char s) @ dquote # rest) = Some (s, rest)"
  by (induction s) (simp_all add: scanstring_escape_char cons_fst_def)

lemma scanstring_encode_basestring:
  "encode_basestring s @ rest = dquote # concat (map escape_char s) @ dquote # rest"
  by (simp add: encode_basestring_def)

subsection \<open>Integers\<close>

lemma is_digit_digit_char: "d < 10 \<Longrightarrow> is_digit (digit_char d)"
  by (simp add: is_digit_def digit_char_def)

lemma digit_val_digit_char: "d < 10 \<Longrightarrow> digit_val (digit_char d) = d"
  by (simp add: digit_val_def digit_char_def)

lemma digit_char_0: "digit_char 0 = CHR ''0''"
  by (simp add: digit_char_def flip: of_char_eq_iff [where 'a = nat])

lemma digit_char_zero: "d < 10 \<Longrightarrow> digit_char d = CHR ''0'' \<longleftrightarrow> d = 0"
proof
  assume d: "d < 10" and eq: "digit_char d = CHR ''0''"
  then have "digit_val (digit_char d) = digit_val (CHR ''0'')" by simp
  with d show "d = 0" by (simp add: digit_val_digit_char) (simp add: digit_val_def)
next
  assume "d = 0"
  then show "digit_char d = CHR ''0''" by (simp add: digit_char_0)
qed

lemma digits_of_digits: "\<forall>c \<in> set (digits_of n). is_digit c"
proof (induction n rule: digits_of.induct)
  case (1 n)
  show ?case
  proof (cases "n < 10")
    case True
    then show ?thesis by (subst digits_of.simps) (simp add: is_digit_digit_char)
  next
    case False
    with 1 show ?thesis by (subst digits_of.simps) (simp add: is_digit_digit_char)
  qed
qed

lemma digits_of_nonempty: "digits_of n \<noteq> []"
  by (subst digits_of.simps) simp

lemma nat_of_digits_snoc: "nat_of_digits (ds @ [c]) = 10 * nat_of_digits ds + digit_val c"
  by (simp add: nat_of_digits_def)

lemma nat_of_digits_of: "nat_of_digits (digits_of n) = n"
proof (induction n rule: digits_of.induct)
  case (1 n)
  show ?case
  proof (cases "n < 10")
    case True
    then show ?thesis
      by (subst digits_of.simps) (simp add: nat_of_digits_def digit_val_digit_char)
  next
    case False
    with 1 have "nat_of_digits (digits_of (n div 10)) = n div 10" by simp
    with False show ?thesis
      by (subst digits_of.simps) (simp add: nat_of_digits_snoc digit_val_digit_char)
  qed
qed

lemma digits_of_head: "0 < n \<Longrightarrow> hd (digits_of n) \<noteq> CHR ''0''"
proof (induction n rule: digits_of.induct)
  case (1 n)
  show ?case
  proof (cases "n < 10")
    case True
    with "1.prems" show ?thesis
      by (subst digits_of.simps) (simp add: digit_char_zero)
  next
    case False
    then have "0 < n div 10" by simp
    with 1 False have "hd (digits_of (n div 10)) \<noteq> CHR ''0''" by simp
    with False show ?thesis
      by (subst digits_of.simps) (simp add: digits_of_nonempty)
  qed
qed

lemma digits_of_zero: "digits_of 0 = [CHR ''0'']"
  by (subst digits_of.simps) (simp add: digit_char_0)

lemma scan_digits_digits_of:
  assumes "rest = [] \<or> \<not> is_digit (hd rest)"
  shows "scan_digits (digits_of n @ rest) = Some (digits_of n, rest)"
proof (cases "n = 0")
  case True
  then show ?thesis by (simp add: digits_of_zero scan_digits_def)
next
  case False
  obtain c ds where cds: "digits_of n = c # ds"
    using digits_of_nonempty [of n] by (cases "digits_of n") auto
  with digits_of_head [of n] False have c0: "c \<noteq> CHR ''0''" by simp
  from cds digits_of_digits [of n] have dig: "is_digit c" "\<forall>x \<in> set ds. is_digit x" by simp_all
  from assms dig(2) have "takeWhile is_digit (ds @ rest) = ds" "dropWhile is_digit (ds @ rest) = rest"
    by (cases rest; simp add: takeWhile_append2 dropWhile_append2)+
  with cds c0 dig(1) show ?thesis by (simp add: scan_digits_def)
qed

lemma float_suffix_other:
  assumes "rest = [] \<or> (hd rest \<noteq> CHR ''.'' \<and> hd rest \<noteq> CHR ''e'' \<and> hd rest \<noteq> CHR ''E'')"
  shows "\<not> float_suffix rest"
proof (cases rest)
  case Nil
  then show ?thesis by simp
next
  case (Cons c r)
  with assms have "c \<noteq> CHR ''.''" "c \<noteq> CHR ''e''" "c \<noteq> CHR ''E''" by simp_all
  with Cons show ?thesis
    by (cases r; cases "tl r") auto
qed

lemma digits_of_not_minus: "hd (digits_of n) \<noteq> CHR ''-''"
proof -
  obtain c ds where cds: "digits_of n = c # ds"
    using digits_of_nonempty [of n] by (cases "digits_of n") auto
  with digits_of_digits [of n] have "is_digit c" by simp
  then have "c \<noteq> CHR ''-''" by (auto simp: is_digit_def)
  with cds show ?thesis by simp
qed

lemma scan_number_str_int:
  assumes "rest = [] \<or> (\<not> is_digit (hd rest) \<and> hd rest \<noteq> CHR ''.'' \<and> hd rest \<noteq> CHR ''e'' \<and> hd rest \<noteq> CHR ''E'')"
  shows "scan_number (str_int i @ rest) = Some (PInt i, rest)"
proof -
  from assms have nd: "rest = [] \<or> \<not> is_digit (hd rest)" by auto
  from assms have "rest = [] \<or> (hd rest \<noteq> CHR ''.'' \<and> hd rest \<noteq> CHR ''e'' \<and> hd rest \<noteq> CHR ''E'')"
    by auto
  then have nf: "\<not> float_suffix rest" by (rule float_suffix_other)
  show ?thesis
  proof (cases "i < 0")
    case True
    with nd nf show ?thesis
      by (simp add: str_int_def scan_number_def scan_digits_digits_of nat_of_digits_of)
  next
    case False
    obtain c ds where cds: "digits_of (nat i) = c # ds"
      using digits_of_nonempty [of "nat i"] by (cases "digits_of (nat i)") auto
    with digits_of_not_minus [of "nat i"] have c: "c \<noteq> CHR ''-''" by simp
    have "scan_digits ((c # ds) @ rest) = Some (c # ds, rest)"
      using scan_digits_digits_of [OF nd, of "nat i"] by (simp add: cds)
    moreover have "nat_of_digits (c # ds) = nat i"
      using nat_of_digits_of [of "nat i"] by (simp add: cds)
    ultimately show ?thesis using False c nf
      by (simp add: str_int_def scan_number_def cds)
  qed
qed

subsection \<open>Values\<close>

lemma json_serializable_encodable: "json_serializable v \<Longrightarrow> encodable v"
  by (induction v) (auto simp: list_all_iff)

lemma skip_ws_start: "\<not> is_ws c \<Longrightarrow> skip_ws (c # r) = c # r"
  by (simp add: skip_ws_def)

lemma skip_ws_blank: "skip_ws (CHR '' '' # r) = skip_ws r"
  by (simp add: skip_ws_def is_ws_def)

lemma str_int_start:
  "\<exists>c r. str_int i = c # r \<and> (c = CHR ''-'' \<or> is_digit c)"
proof -
  obtain c ds where cds: "digits_of (nat \<bar>i\<bar>) = c # ds"
    using digits_of_nonempty [of "nat \<bar>i\<bar>"] by (cases "digits_of (nat \<bar>i\<bar>)") auto
  with digits_of_digits [of "nat \<bar>i\<bar>"] have "is_digit c" by simp
  with cds show ?thesis by (cases "i < 0") (simp_all add: str_int_def)
qed

lemma starts_value_digit: "c = CHR ''-'' \<or> is_digit c \<Longrightarrow> starts_value c"
  by (auto simp: starts_value_def is_digit_def is_ws_def)

lemma dumps_text_start:
  assumes "json_serializable v"
  shows "\<exists>c r. dumps_text v = c # r \<and> starts_value c"
proof (cases v)
  case (PInt i)
  from str_int_start [of i] obtain c r where "str_int i = c # r" "c = CHR ''-'' \<or> is_digit c"
    by blast
  with PInt show ?thesis by (auto intro: starts_value_digit)
next
  case PObject
  with assms show ?thesis by simp
qed (auto simp: starts_value_def is_ws_def encode_basestring_def dquote_def)

lemma encode_basestring_start: "\<exists>r. encode_basestring k = dquote # r"
  by (simp add: encode_basestring_def)

lemma skip_ws_dumps:
  "json_serializable v \<Longrightarrow> skip_ws (dumps_text v @ rest) = dumps_text v @ rest"
  using dumps_text_start [of v] by (auto simp: starts_value_def skip_ws_start)

lemma update_fresh: "k \<notin> fst ` set al \<Longrightarrow> AList.update k v al = al @ [(k, v)]"
  by (induction al) auto

lemma foldl_update_distinct:
  "distinct (map fst (al @ kvs))
     \<Longrightarrow> foldl (\<lambda>al kv. AList.update (fst kv) (snd kv) al) al kvs = al @ kvs"
proof (induction kvs arbitrary: al)
  case Nil
  then show ?case by simp
next
  case (Cons kv kvs)
  then have fresh: "fst kv \<notin> fst ` set al" by auto
  from Cons.prems have "distinct (map fst ((al @ [kv]) @ kvs))" by simp
  from Cons.IH [OF this] fresh show ?case
    by (simp add: update_fresh)
qed

lemma ends_value_simps [simp]:
  "ends_value []" "ends_value (CHR '','' # r)" "ends_value (CHR '']'' # r)" "ends_value (CHR ''}'' # r)"
  by (simp_all add: ends_value_def)

lemma ends_value_number:
  assumes "ends_value rest"
  shows "rest = [] \<or> (\<not> is_digit (hd rest) \<and> hd rest \<noteq> CHR ''.'' \<and> hd rest \<noteq> CHR ''e'' \<and> hd rest \<noteq> CHR ''E'')"
  using assms by (auto simp: ends_value_def is_digit_def)

lemma scan_once_atom_int:
  assumes "ends_value rest"
  shows "scan_once (Suc n) (str_int i @ rest) = Some (PInt i, rest)"
proof -
  from str_int_start [of i] obtain c r where cr: "str_int i = c # r" and c: "c = CHR ''-'' \<or> is_digit c"
    by blast
  from c have "c \<noteq> dquote" "c \<noteq> CHR ''{''" "c \<noteq> CHR ''[''" "c \<noteq> CHR ''n''" "c \<noteq> CHR ''t''"
    "c \<noteq> CHR ''f''"
    by (auto simp: is_digit_def dquote_def)
  then have "scan_once (Suc n) (c # r @ rest) = scan_number (c # r @ rest)" by simp
  also have "\<dots> = scan_number (str_int i @ rest)" by (simp add: cr)
  also have "\<dots> = Some (PInt i, rest)"
    by (rule scan_number_str_int) (rule ends_value_number [OF assms])
  finally show ?thesis by (simp add: cr)
qed

lemma parse_array_elements:
  assumes IH: "\<And>x n rest. x \<in> set xs \<Longrightarrow> length (dumps_text x) < n \<Longrightarrow> ends_value rest
                 \<Longrightarrow> scan_once n (dumps_text x @ rest) = Some (x, rest)"
    and "\<forall>x \<in> set xs. json_serializable x" and "xs \<noteq> []"
    and "length (join '', '' (map dumps_text xs)) + 1 < n"
  shows "parse_array n (join '', '' (map dumps_text xs) @ CHR '']'' # rest) = Some (xs, rest)"
  using assms
proof (induction xs arbitrary: n)
  case Nil
  then show ?case by simp
next
  case (Cons x xs)
  from Cons.prems(4) obtain n' where n: "n = Suc n'" by (cases n) auto
  show ?case
  proof (cases xs)
    case Nil
    with Cons.prems(4) n have "length (dumps_text x) < n'" by simp
    then have "scan_once n' (dumps_text x @ CHR '']'' # rest) = Some (x, CHR '']'' # rest)"
      by (intro Cons.prems(1)) simp_all
    with Nil n show ?thesis by (simp add: skip_ws_start is_ws_def)
  next
    case (Cons y ys)
    let ?J = "join '', '' (map dumps_text xs)"
    from Cons Cons.prems(4) n have lx: "length (dumps_text x) < n'" and lj: "length ?J + 1 < n'"
      by simp_all
    have x: "scan_once n' (dumps_text x @ CHR '','' # CHR '' '' # ?J @ CHR '']'' # rest)
               = Some (x, CHR '','' # CHR '' '' # ?J @ CHR '']'' # rest)"
      using lx by (intro Cons.prems(1)) simp_all
    have tail: "parse_array n' (?J @ CHR '']'' # rest) = Some (xs, rest)"
    proof (rule Cons.IH)
      fix z m r
      assume "z \<in> set xs" "length (dumps_text z) < m" "ends_value r"
      then show "scan_once m (dumps_text z @ r) = Some (z, r)"
        by (intro Cons.prems(1)) simp_all
    next
      from Cons.prems(2) show "\<forall>z \<in> set xs. json_serializable z" by simp
    next
      show "xs \<noteq> []" by (simp add: Cons)
    next
      show "length ?J + 1 < n'" by (rule lj)
    qed
    from Cons.prems(2) Cons have "json_serializable y" by simp
    from dumps_text_start [OF this] obtain c r where cr: "dumps_text y = c # r" and "starts_value c"
      by blast
    then have ws: "\<not> is_ws c" by (simp add: starts_value_def)
    have "\<exists>t. ?J @ CHR '']'' # rest = c # t"
      using cr Cons by (cases ys) simp_all
    then obtain t where t: "?J @ CHR '']'' # rest = c # t" by blast
    have sk: "skip_ws (?J @ CHR '']'' # rest) = ?J @ CHR '']'' # rest"
      unfolding t using ws by (rule skip_ws_start)
    have "join '', '' (map dumps_text (x # xs)) @ CHR '']'' # rest
        = dumps_text x @ CHR '','' # CHR '' '' # ?J @ CHR '']'' # rest"
      by (simp add: Cons)
    moreover have "parse_array (Suc n') (dumps_text x @ CHR '','' # CHR '' '' # ?J @ CHR '']'' # rest)
        = Some (x # xs, rest)"
      using x tail sk by (simp add: skip_ws_start is_ws_def skip_ws_blank cons_fst_def)
    ultimately show ?thesis using n by simp
  qed
qed

lemma parse_object_member:
  assumes v: "scan_once n (dumps_text v @ tail) = Some (v, tail)" and ser: "json_serializable v"
  shows "parse_object (Suc n) (member_text (k, v) @ tail) =
     (case skip_ws tail of
        [] \<Rightarrow> None
      | d # r2 \<Rightarrow>
          if d = CHR ''}'' then Some ([(k, v)], r2)
          else if d = CHR '','' then cons_fst (k, v) (parse_object n (skip_ws r2))
          else None)"
proof -
  have "member_text (k, v) @ tail
      = dquote # concat (map escape_char k) @ dquote # CHR '':'' # CHR '' '' # dumps_text v @ tail"
    by (simp add: encode_basestring_def)
  moreover have "scanstring (concat (map escape_char k) @ dquote # CHR '':'' # CHR '' '' # dumps_text v @ tail)
      = Some (k, CHR '':'' # CHR '' '' # dumps_text v @ tail)"
    by (rule scanstring_escaped)
  moreover have "skip_ws (CHR '' '' # dumps_text v @ tail) = dumps_text v @ tail"
    by (simp add: skip_ws_blank skip_ws_dumps [OF ser])
  ultimately show ?thesis
    using v by (simp add: skip_ws_start is_ws_def)
qed

lemma parse_object_members:
  assumes IH: "\<And>k x n rest. (k, x) \<in> set kvs \<Longrightarrow> length (dumps_text x) < n \<Longrightarrow> ends_value rest
                 \<Longrightarrow> scan_once n (dumps_text x @ rest) = Some (x, rest)"
    and "\<forall>kv \<in> set kvs. json_serializable (snd kv)" and "kvs \<noteq> []"
    and "length (join '', '' (map member_text kvs)) + 1 < n"
  shows "parse_object n (join '', '' (map member_text kvs) @ CHR ''}'' # rest) = Some (kvs, rest)"
  using assms
proof (induction kvs arbitrary: n)
  case Nil
  then show ?case by simp
next
  case (Cons kv kvs)
  obtain k v where kv: "kv = (k, v)" by (cases kv)
  from Cons.prems(4) obtain n' where n: "n = Suc n'" by (cases n) auto
  from Cons.prems(2) kv have ser: "json_serializable v" by simp
  show ?case
  proof (cases kvs)
    case Nil
    with Cons.prems(4) n kv have "length (dumps_text v) < n'" by simp
    then have "scan_once n' (dumps_text v @ CHR ''}'' # rest) = Some (v, CHR ''}'' # rest)"
      by (intro Cons.prems(1) [of k]) (simp_all add: kv)
    from parse_object_member [OF this ser, of k] Nil n kv show ?thesis
      by (simp add: skip_ws_start is_ws_def)
  next
    case (Cons kv2 kvs2)
    let ?J = "join '', '' (map member_text kvs)"
    from Cons Cons.prems(4) n kv have lx: "length (dumps_text v) < n'" and lj: "length ?J + 1 < n'"
      by simp_all
    have x: "scan_once n' (dumps_text v @ CHR '','' # CHR '' '' # ?J @ CHR ''}'' # rest)
               = Some (v, CHR '','' # CHR '' '' # ?J @ CHR ''}'' # rest)"
      using lx by (intro Cons.prems(1) [of k]) (simp_all add: kv)
    have tail: "parse_object n' (?J @ CHR ''}'' # rest) = Some (kvs, rest)"
    proof (rule Cons.IH)
      fix k' z m r
      assume "(k', z) \<in> set kvs" "length (dumps_text z) < m" "ends_value r"
      then show "scan_once m (dumps_text z @ r) = Some (z, r)"
        by (intro Cons.prems(1) [of k']) simp_all
    next
      from Cons.prems(2) show "\<forall>kv \<in> set kvs. json_serializable (snd kv)" by simp
    next
      show "kvs \<noteq> []" by (simp add: Cons)
    next
      show "length ?J + 1 < n'" by (rule lj)
    qed
    obtain r where "encode_basestring (fst kv2) = dquote # r"
      using encode_basestring_start by blast
    then have "\<exists>t. ?J @ CHR ''}'' # rest = dquote # t"
      using Cons by (cases kvs2) simp_all
    then obtain t where t: "?J @ CHR ''}'' # rest = dquote # t" by blast
    have "\<not> is_ws dquote" by (simp add: is_ws_def dquote_def)
    then have sk: "skip_ws (?J @ CHR ''}'' # rest) = ?J @ CHR ''}'' # rest"
      unfolding t by (rule skip_ws_start)
    have "join '', '' (map member_text (kv # kvs)) @ CHR ''}'' # rest
        = member_text (k, v) @ CHR '','' # CHR '' '' # ?J @ CHR ''}'' # rest"
      by (simp add: Cons kv)
    moreover have "parse_object (Suc n') (member_text (k, v) @ CHR '','' # CHR '' '' # ?J @ CHR ''}'' # rest)
        = Some ((k, v) # kvs, rest)"
      unfolding parse_object_member [OF x ser, of k] using tail sk
      by (simp add: skip_ws_start is_ws_def skip_ws_blank cons_fst_def)
    ultimately show ?thesis using n kv by simp
  qed
qed

lemma scan_once_dumps_text:
  "json_serializable v \<Longrightarrow> length (dumps_text v) < n \<Longrightarrow> ends_value rest
     \<Longrightarrow> scan_once n (dumps_text v @ rest) = Some (v, rest)"
proof (induction v arbitrary: n rest)
  case PNone
  then obtain n' where "n = Suc n'" by (cases n) auto
  then show ?case by (simp add: strip_prefix_def dquote_def)
next
  case (PBool b)
  then obtain n' where "n = Suc n'" by (cases n) auto
  then show ?case by (simp add: strip_prefix_def dquote_def)
next
  case (PInt i)
  then obtain n' where "n = Suc n'" by (cases n) auto
  with PInt.prems(3) show ?case by (simp add: scan_once_atom_int)
next
  case (PStr s)
  then obtain n' where "n = Suc n'" by (cases n) auto
  then show ?case by (simp add: encode_basestring_def scanstring_escaped)
next
  case (PList xs)
  from PList.prems(2) obtain n' where n: "n = Suc n'" by (cases n) auto
  show ?case
  proof (cases xs)
    case Nil
    with n show ?thesis by (simp add: dquote_def skip_ws_start is_ws_def)
  next
    case (Cons y ys)
    let ?E = "join '', '' (map dumps_text xs)"
    from PList.prems(1) have ser: "\<forall>x \<in> set xs. json_serializable x" by (simp add: list_all_iff)
    from PList.prems(2) n have len: "length ?E + 1 < n'" by simp
    have arr: "parse_array n' (?E @ CHR '']'' # rest) = Some (xs, rest)"
    proof (rule parse_array_elements [OF _ ser _ len])
      fix x m r
      assume "x \<in> set xs" "length (dumps_text x) < m" "ends_value r"
      with ser show "scan_once m (dumps_text x @ r) = Some (x, r)"
        by (intro PList.IH) simp_all
    next
      from Cons show "xs \<noteq> []" by simp
    qed
    from ser Cons have "json_serializable y" by simp
    from dumps_text_start [OF this] obtain c r where cr: "dumps_text y = c # r" and sv: "starts_value c"
      by blast
    have E: "?E @ CHR '']'' # rest = c # (tl ?E @ CHR '']'' # rest)"
      using cr Cons by (cases ys) simp_all
    from sv have c: "\<not> is_ws c" "c \<noteq> CHR '']''" by (simp_all add: starts_value_def)
    have "scan_once (Suc n') (CHR ''['' # ?E @ CHR '']'' # rest) = Some (PList xs, rest)"
      using arr c unfolding E by (simp add: dquote_def skip_ws_start)
    with n show ?thesis by simp
  qed
next
  case (PDict kvs)
  from PDict.prems(2) obtain n' where n: "n = Suc n'" by (cases n) auto
  show ?case
  proof (cases kvs)
    case Nil
    with n show ?thesis by (simp add: dquote_def skip_ws_start is_ws_def)
  next
    case (Cons kv kvs2)
    let ?M = "join '', '' (map member_text kvs)"
    from PDict.prems(1) have ser: "\<forall>kv \<in> set kvs. json_serializable (snd kv)"
      and dist: "distinct (map fst kvs)"
      by (simp_all add: list_all_iff)
    from PDict.prems(2) n have len: "length ?M + 1 < n'" by simp
    have obj: "parse_object n' (?M @ CHR ''}'' # rest) = Some (kvs, rest)"
    proof (rule parse_object_members [OF _ ser _ len])
      fix k x m r
      assume "(k, x) \<in> set kvs" "length (dumps_text x) < m" "ends_value r"
      with ser show "scan_once m (dumps_text x @ r) = Some (x, r)"
        by (intro PDict.IH [of "(k, x)"]) auto
    next
      from Cons show "kvs \<noteq> []" by simp
    qed
    obtain r where "encode_basestring (fst kv) = dquote # r"
      using encode_basestring_start by blast
    then have M: "?M @ CHR ''}'' # rest = dquote # (tl ?M @ CHR ''}'' # rest)"
      using Cons by (cases kvs2) simp_all
    from dist have "foldl (\<lambda>al kv. AList.update (fst kv) (snd kv) al) [] kvs = kvs"
      using foldl_update_distinct [of "[]" kvs] by simp
    with obj have "scan_once (Suc n') (CHR ''{'' # ?M @ CHR ''}'' # rest) = Some (PDict kvs, rest)"
      unfolding M by (simp add: dquote_def skip_ws_start is_ws_def)
    with n show ?thesis by simp
  qed
next
  case PObject
  then show ?case by simp
qed

lemma json_loads_dumps_text: "json_serializable v \<Longrightarrow> json_loads (dumps_text v) = Some v"
  using scan_once_dumps_text [of v "Suc (length (dumps_text v))" "[]"] skip_ws_dumps [of v "[]"]
  by (simp add: json_loads_def skip_ws_def)

section \<open>Writing and reading back\<close>

lemma get_set_entry:
  assumes "storage_ok c" "json_serializable v"
  shows "get (snd (set_entry c k v now)) k = Return v"
  using assms
  by (simp add: get_by_entry storage_ok_set_entry entry_set_entry_same
      json_serializable_encodable json_loads_dumps_text)







text \<open>
  C6. On a storage layer that answers, \<^verbatim>\<open>set(k, v1)\<close>, \<^verbatim>\<open>set(k, v2)\<close>, \<^verbatim>\<open>get(k)\<close> returns \<open>v2\<close> for
  a JSON-serializable \<open>v2\<close>, hence not \<open>v1\<close> when the two differ; and the keys of the table
  stay pairwise different through every operation, so that a cache that started on a fresh
  database never holds two entries for one key.
\<close>

theorem set_overwrites:
  "(storage_ok c \<and> json_serializable v2 \<longrightarrow>
      get (snd (set_entry (snd (set_entry c k v1 t1)) k v2 t2)) k = Return v2
      \<and> (v1 \<noteq> v2 \<longrightarrow> get (snd (set_entry (snd (set_entry c k v1 t1)) k v2 t2)) k \<noteq> Return v1))
   \<and> (unique_keys c \<longrightarrow> unique_keys (apply_cache_op c op))
   \<and> unique_keys (foldl apply_cache_op (new_cache hours) ops)"
proof (intro conjI impI)
  assume a: "storage_ok c \<and> json_serializable v2"
  then have "storage_ok (snd (set_entry c k v1 t1))" by (simp add: storage_ok_set_entry)
  with a show g: "get (snd (set_entry (snd (set_entry c k v1 t1)) k v2 t2)) k = Return v2"
    by (simp add: get_set_entry)
  assume "v1 \<noteq> v2"
  with g show "get (snd (set_entry (snd (set_entry c k v1 t1)) k v2 t2)) k \<noteq> Return v1" by simp
next
  assume "unique_keys c"
  then show "unique_keys (apply_cache_op c op)" by (rule unique_keys_apply)
next
  have "unique_keys (new_cache hours)" by (simp add: unique_keys_def new_cache_def)
  then show "unique_keys (foldl apply_cache_op (new_cache hours) ops)" by (rule unique_keys_foldl)
qed

theorem set_overwrites_witness:
  "storage_ok (new_cache 24) \<and> json_serializable (PList [PStr ''B''])
   \<and> PList [PStr ''A''] \<noteq> PList [PStr ''B'']
   \<and> get (snd (set_entry (snd (set_entry (new_cache 24) ''q1'' (PList [PStr ''A'']) 0)) ''q1''
        (PList [PStr ''B'']) 5)) ''q1'' = Return (PList [PStr ''B''])
   \<and> cache_rows (snd (set_entry (snd (set_entry (new_cache 24) ''q1'' (PList [PStr ''A'']) 0)) ''q1''
        (PList [PStr ''B'']) 5))
       = [\<lparr>row_key = ''q1'', row_value = Some (dumps_text (PList [PStr ''B''])), row_timestamp = 5\<rparr>]
   \<and> unique_keys (new_cache 24)
   \<and> unique_keys (apply_cache_op (new_cache 24) (Set ''q1'' (PList [PStr ''A'']) 0))"
proof -
  have h: "storage_ok (new_cache 24)" "json_serializable (PList [PStr ''B''])"
    "unique_keys (new_cache 24)"
    by (simp_all add: new_cache_def unique_keys_def)
  from h set_overwrites [of "new_cache 24" "PList [PStr ''B'']" "''q1''" "PList [PStr ''A'']" 0 5
      "Set ''q1'' (PList [PStr ''A'']) 0" 24 "[]"]
  show ?thesis by (simp add: set_entry_eq new_cache_def)
qed

section \<open>Cached values that test false\<close>






end
